theory Spec2Isabelle
  imports Main "HOL-Library.Word" "HOL-Library.Monad_Syntax"
begin

section \<open>Strings of the C++ standard library\<close>

text \<open>
  A \<open>std::string\<close> is a list of bytes. The three operations of the library that the
  shell uses are modelled on it: \<open>c_str\<close> (the bytes up to the first NUL, which is what a
  C function such as \<open>getenv\<close> or \<open>execvp\<close> sees), \<open>find_first_of\<close> and \<open>substr\<close>.
\<close>

definition c_str :: "string \<Rightarrow> string" where
  "c_str s = takeWhile (\<lambda>c. c \<noteq> CHR 0x00) s"

text \<open>
  \<open>str[i]\<close>: the byte at \<open>i\<close>; at \<open>i = str.size()\<close> the library returns the NUL
  byte. The loops below only index positions that \<open>find_first_of\<close> has bounded by the
  size.
\<close>

definition char_at :: "string \<Rightarrow> nat \<Rightarrow> char" where
  "char_at str i = (if i < length str then str ! i else CHR 0x00)"

text \<open>
  \<open>str.find_first_of(chars, pos)\<close>: the first position at or after \<open>pos\<close> that holds
  one of \<open>chars\<close>; \<open>None\<close> is \<open>std::string::npos\<close>.
\<close>

function find_first_of :: "string \<Rightarrow> string \<Rightarrow> nat \<Rightarrow> nat option" where
  "find_first_of str chars pos =
     (if pos < length str
      then (if str ! pos \<in> set chars then Some pos else find_first_of str chars (pos + 1))
      else None)"
  by pat_completeness auto
termination
  by (relation "measure (\<lambda>(str, chars, pos). length str - pos)") auto

declare find_first_of.simps [simp del]

text \<open>
  \<open>str.substr(pos, n)\<close> and \<open>str.substr(pos)\<close>. The library throws
  \<open>std::out_of_range\<close> when \<open>pos > str.size()\<close>; every call below has
  \<open>pos \<le> str.size()\<close> (lemma \<open>find_first_of_bounds\<close>), so the exception cannot be
  raised and is not a branch of the model.
\<close>

definition substr :: "string \<Rightarrow> nat \<Rightarrow> nat \<Rightarrow> string" where
  "substr str pos n = take n (drop pos str)"

definition substr_from :: "string \<Rightarrow> nat \<Rightarrow> string" where
  "substr_from str pos = drop pos str"

lemma find_first_of_bounds:
  "find_first_of str chars pos = Some e \<Longrightarrow> pos \<le> e \<and> e < length str \<and> str ! e \<in> set chars"
proof (induction str chars pos rule: find_first_of.induct)
  case (1 str chars pos)
  show ?case
  proof (cases "pos < length str \<and> str ! pos \<notin> set chars")
    case True
    with "1.prems" have "find_first_of str chars (pos + 1) = Some e"
      by (simp add: find_first_of.simps [of str chars pos])
    with "1.IH" True show ?thesis by fastforce
  next
    case False
    with "1.prems" show ?thesis
      by (auto simp: find_first_of.simps [of str chars pos] split: if_splits)
  qed
qed

lemma find_first_of_least:
  "find_first_of str chars pos = Some e \<Longrightarrow> pos \<le> i \<Longrightarrow> i < e \<Longrightarrow> str ! i \<notin> set chars"
proof (induction str chars pos rule: find_first_of.induct)
  case (1 str chars pos)
  show ?case
  proof (cases "pos < length str \<and> str ! pos \<notin> set chars")
    case True
    with "1.prems" have rec: "find_first_of str chars (pos + 1) = Some e"
      by (simp add: find_first_of.simps [of str chars pos])
    show ?thesis
    proof (cases "i = pos")
      case True
      with \<open>pos < length str \<and> str ! pos \<notin> set chars\<close> show ?thesis by simp
    next
      case False
      with "1.prems" have "pos + 1 \<le> i" by simp
      with "1.IH" True rec "1.prems" show ?thesis by simp
    qed
  next
    case False
    with "1.prems" have "e = pos"
      by (auto simp: find_first_of.simps [of str chars pos] split: if_splits)
    with "1.prems" show ?thesis by simp
  qed
qed

lemma find_first_of_None:
  "find_first_of str chars pos = None \<Longrightarrow> pos \<le> i \<Longrightarrow> i < length str \<Longrightarrow> str ! i \<notin> set chars"
proof (induction str chars pos rule: find_first_of.induct)
  case (1 str chars pos)
  from "1.prems" have here: "pos < length str" "str ! pos \<notin> set chars"
    by (auto simp: find_first_of.simps [of str chars pos] split: if_splits)
  with "1.prems" have rec: "find_first_of str chars (pos + 1) = None"
    by (simp add: find_first_of.simps [of str chars pos])
  show ?case
  proof (cases "i = pos")
    case True
    with here show ?thesis by simp
  next
    case False
    with "1.prems" have "pos + 1 \<le> i" by simp
    with "1.IH" here rec "1.prems" show ?thesis by simp
  qed
qed

lemma find_first_of_here:
  "pos < length str \<Longrightarrow> str ! pos \<in> set chars \<Longrightarrow> find_first_of str chars pos = Some pos"
  by (simp add: find_first_of.simps [of str chars pos])

section \<open>The tokenizer: \<open>CommandFactory::splitString\<close>\<close>

text \<open>
  The \<open>while\<close> loop of \<open>splitString\<close>, with its two variables \<open>start\<close> and
  \<open>tokens\<close>; the code after the loop is the \<open>None\<close> branch.
\<close>

function splitString_loop :: "string \<Rightarrow> string \<Rightarrow> nat \<Rightarrow> string list \<Rightarrow> string list" where
  "splitString_loop str delimiters start tokens =
     (case find_first_of str delimiters start of
        Some end' \<Rightarrow>
          splitString_loop str delimiters (end' + 1)
            (if end' \<noteq> start then tokens @ [substr str start (end' - start)] else tokens)
      | None \<Rightarrow>
          (if start \<noteq> length str then tokens @ [substr_from str start] else tokens))"
  by pat_completeness auto
termination
proof (relation "measure (\<lambda>(str, delimiters, start, tokens). length str - start)")
  show "wf (measure (\<lambda>(str, delimiters, start, tokens). length str - start))"
    by simp
next
  fix str delimiters :: string and start :: nat and tokens :: "string list" and e :: nat
  assume "find_first_of str delimiters start = Some e"
  then have "start \<le> e \<and> e < length str"
    using find_first_of_bounds by blast
  then show "((str, delimiters, e + 1,
               if e \<noteq> start then tokens @ [substr str start (e - start)] else tokens),
              str, delimiters, start, tokens)
             \<in> measure (\<lambda>(str, delimiters, start, tokens). length str - start)"
    by auto
qed

declare splitString_loop.simps [simp del]

definition splitString :: "string \<Rightarrow> string \<Rightarrow> string list" where
  "splitString str delimiters = splitString_loop str delimiters 0 []"

text \<open>
  The tokenizer as the specification words it: cut the string at every delimiter
  occurrence (\<open>pieces\<close>, which keeps the empty pieces between adjacent delimiters and at
  both ends), then drop the empty pieces.
\<close>

fun pieces :: "string \<Rightarrow> string \<Rightarrow> string list" where
  "pieces delimiters [] = [[]]"
| "pieces delimiters (c # cs) =
     (if c \<in> set delimiters then [] # pieces delimiters cs
      else (case pieces delimiters cs of p # ps \<Rightarrow> (c # p) # ps | [] \<Rightarrow> [[c]]))"

definition tokenize_spec :: "string \<Rightarrow> string \<Rightarrow> string list" where
  "tokenize_spec str delimiters = filter (\<lambda>t. t \<noteq> []) (pieces delimiters str)"

section \<open>The constants of the shell\<close>

definition SPACE :: string where
  "SPACE = '' ''"

definition BACKGROUND_PROCESS :: string where
  "BACKGROUND_PROCESS = ''&''"

definition EXIT_COMMAND :: string where
  "EXIT_COMMAND = ''exit''"

definition CHILD_CREATION_FAILED :: string where
  "CHILD_CREATION_FAILED = ''Failed to create child process''"

text \<open>\<open>std::endl\<close> writes a line feed (and flushes).\<close>

definition endl :: string where
  "endl = [CHR 0x0A]"

section \<open>The variable expander: \<open>Command::expandVariables\<close>\<close>

text \<open>
  The environment is a parameter: a map from names to values. \<open>getenv\<close> returns
  \<open>nullptr\<close> (\<open>None\<close>) for a name that is not set. The source passes
  \<open>varName.c_str()\<close>, so the name ends at its first NUL byte.
\<close>

type_synonym env = "string \<Rightarrow> string option"

definition getenv :: "env \<Rightarrow> string \<Rightarrow> string option" where
  "getenv environ name = environ (c_str name)"

text \<open>The conditions of the two substituting branches of the loop, as the source writes them.\<close>

definition dollar_branch :: "string \<Rightarrow> nat \<Rightarrow> nat \<Rightarrow> bool" where
  "dollar_branch str start end' = (char_at str start = CHR ''$'' \<and> end' > start + 1)"

definition brace_branch :: "string \<Rightarrow> nat \<Rightarrow> nat \<Rightarrow> bool" where
  "brace_branch str start end' =
     (char_at str start = CHR ''{'' \<and> end' > start + 1 \<and> char_at str (end' - 1) = CHR ''$'')"

text \<open>
  The \<open>while\<close> loop of \<open>expandVariables\<close> with its variables \<open>start\<close> and
  \<open>result\<close>. Positions are \<open>size_t\<close>; they stay below the size of the string, so no
  position wraps around, and \<open>end - start - 1\<close> and \<open>end - start - 2\<close> are only
  computed where \<open>end > start + 1\<close>.
\<close>

function expandVariables_loop :: "env \<Rightarrow> string \<Rightarrow> nat \<Rightarrow> string \<Rightarrow> string" where
  "expandVariables_loop environ str start result =
     (case find_first_of str ''$}'' start of
        Some end' \<Rightarrow>
          (if dollar_branch str start end' then
             expandVariables_loop environ str (end' + 1)
               (case getenv environ (substr str (start + 1) (end' - start - 1)) of
                  Some varValue \<Rightarrow> result @ varValue
                | None \<Rightarrow> result)
           else if brace_branch str start end' then
             expandVariables_loop environ str (end' + 1)
               (case getenv environ (substr str (start + 2) (end' - start - 2)) of
                  Some varValue \<Rightarrow> result @ varValue
                | None \<Rightarrow> result)
           else
             expandVariables_loop environ str (end' + 1)
               (result @ substr str start (end' - start + 1)))
      | None \<Rightarrow>
          (if start \<noteq> length str then result @ substr_from str start else result))"
  by pat_completeness auto
termination
proof (relation "measure (\<lambda>(environ, str, start, result). length str - start)")
  show "wf (measure (\<lambda>(environ, str, start, result). length str - start))"
    by simp
next
  fix environ :: env and str :: string and start :: nat and result :: string and e :: nat
  assume found: "find_first_of str ''$}'' start = Some e"
  assume "dollar_branch str start e"
  from found have "start \<le> e \<and> e < length str"
    using find_first_of_bounds by blast
  then show "((environ, str, e + 1,
               case getenv environ (substr str (start + 1) (e - start - 1)) of
                 None \<Rightarrow> result | Some varValue \<Rightarrow> result @ varValue),
              environ, str, start, result)
             \<in> measure (\<lambda>(environ, str, start, result). length str - start)"
    by auto
next
  fix environ :: env and str :: string and start :: nat and result :: string and e :: nat
  assume found: "find_first_of str ''$}'' start = Some e"
  assume "\<not> dollar_branch str start e" "brace_branch str start e"
  from found have "start \<le> e \<and> e < length str"
    using find_first_of_bounds by blast
  then show "((environ, str, e + 1,
               case getenv environ (substr str (start + 2) (e - start - 2)) of
                 None \<Rightarrow> result | Some varValue \<Rightarrow> result @ varValue),
              environ, str, start, result)
             \<in> measure (\<lambda>(environ, str, start, result). length str - start)"
    by auto
next
  fix environ :: env and str :: string and start :: nat and result :: string and e :: nat
  assume found: "find_first_of str ''$}'' start = Some e"
  assume "\<not> dollar_branch str start e" "\<not> brace_branch str start e"
  from found have "start \<le> e \<and> e < length str"
    using find_first_of_bounds by blast
  then show "((environ, str, e + 1, result @ substr str start (e - start + 1)),
              environ, str, start, result)
             \<in> measure (\<lambda>(environ, str, start, result). length str - start)"
    by auto
qed

declare expandVariables_loop.simps [simp del]

definition expandVariables :: "env \<Rightarrow> string \<Rightarrow> string" where
  "expandVariables environ str = expandVariables_loop environ str 0 []"

section \<open>The built-in commands\<close>

subsection \<open>\<open>EchoCommand::execute\<close>\<close>

text \<open>
  Standard output is the string of bytes written. The \<open>for\<close> loop runs \<open>i\<close> from 1
  while \<open>i < args.size()\<close>; with an empty \<open>args\<close> it does not run at all.
\<close>

function echo_loop :: "env \<Rightarrow> string list \<Rightarrow> nat \<Rightarrow> string \<Rightarrow> string" where
  "echo_loop environ args i out =
     (if i < length args
      then echo_loop environ args (i + 1) (out @ expandVariables environ (args ! i) @ '' '')
      else out)"
  by pat_completeness auto
termination
  by (relation "measure (\<lambda>(environ, args, i, out). length args - i)") auto

declare echo_loop.simps [simp del]

definition EchoCommand_execute :: "env \<Rightarrow> string list \<Rightarrow> string" where
  "EchoCommand_execute environ args = echo_loop environ args 1 [] @ endl"

subsection \<open>\<open>HistoryCommand::execute\<close>\<close>

text \<open>
  \<open>std::cout << count\<close> for an \<open>int\<close>: the decimal digits, after a minus sign for a
  negative value.
\<close>

definition digit :: "nat \<Rightarrow> char" where
  "digit d = ''0123456789'' ! d"

fun show_nat :: "nat \<Rightarrow> string" where
  "show_nat n = (if n < 10 then [digit n] else show_nat (n div 10) @ [digit (n mod 10)])"

declare show_nat.simps [simp del]

definition show_int :: "int \<Rightarrow> string" where
  "show_int i = (if i < 0 then CHR ''-'' # show_nat (nat (- i)) else show_nat (nat i))"

text \<open>
  \<open>std::getline\<close> on what is left of the stream: at the end of the file it extracts
  nothing and fails (\<open>None\<close>); otherwise it returns the bytes before the next line feed
  and leaves the stream after that line feed (or at the end of the file when there is
  none).
\<close>

definition getline :: "string \<Rightarrow> (string \<times> string) option" where
  "getline stream =
     (if stream = [] then None
      else Some (takeWhile (\<lambda>c. c \<noteq> CHR 0x0A) stream,
                 drop 1 (dropWhile (\<lambda>c. c \<noteq> CHR 0x0A) stream)))"

lemma getline_shorter: "getline stream = Some (line, rest) \<Longrightarrow> length rest < length stream"
proof -
  assume g: "getline stream = Some (line, rest)"
  then have ne: "stream \<noteq> []" and r: "rest = drop 1 (dropWhile (\<lambda>c. c \<noteq> CHR 0x0A) stream)"
    by (auto simp: getline_def split: if_splits)
  show ?thesis
  proof (cases "dropWhile (\<lambda>c. c \<noteq> CHR 0x0A) stream = []")
    case True
    with ne r show ?thesis by simp
  next
    case False
    then have "length rest < length (dropWhile (\<lambda>c. c \<noteq> CHR 0x0A) stream)"
      using r by simp
    also have "\<dots> \<le> length stream"
      by (rule length_dropWhile_le)
    finally show ?thesis .
  qed
qed

text \<open>
  The \<open>while\<close> loop of the listing. \<open>count\<close> is a C++ \<open>int\<close>: a 32-bit word read as
  two's complement, whose increment wraps around.
\<close>

function history_loop :: "32 word \<Rightarrow> string \<Rightarrow> string \<Rightarrow> string" where
  "history_loop count stream out =
     (case getline stream of
        Some (line, rest) \<Rightarrow>
          history_loop (count + 1) rest (out @ show_int (sint count) @ ''. '' @ line @ endl)
      | None \<Rightarrow> out)"
  by pat_completeness auto
termination
  by (relation "measure (\<lambda>(count, stream, out). length stream)") (auto dest: getline_shorter)

declare history_loop.simps [simp del]

text \<open>
  The state of the history file is \<open>None\<close> when it cannot be opened and its content
  otherwise. A stream that failed to open fails its first \<open>getline\<close>.
\<close>

definition HistoryCommand_execute :: "string option \<Rightarrow> string" where
  "HistoryCommand_execute historyFile =
     (case historyFile of
        None \<Rightarrow> []
      | Some content \<Rightarrow> history_loop 1 content [])"

section \<open>The process runner: \<open>ExternalCommand::execute\<close>\<close>

text \<open>
  The operating system is a parameter: the environment, whether \<open>execvp\<close> replaces the
  image for a given argument vector (\<open>False\<close>: it returns \<open>-1\<close>), and whether the
  \<open>fork\<close> made by the process at a given nesting depth succeeds.
\<close>

record os =
  os_env :: env
  os_execvp :: "string list \<Rightarrow> bool"
  os_fork :: "nat \<Rightarrow> bool"

text \<open>
  What one call does is a trace over the processes it creates. \<open>Throw msg\<close> is the
  \<open>std::runtime_error(msg)\<close> thrown by the process whose \<open>fork\<close> returned \<open>-1\<close>
  (the caller at depth 0, a child at a deeper level); the child's events follow
  \<open>Fork\<close>; \<open>ExecFailed argv\<close> and \<open>ImageReplaced argv\<close> are the two outcomes of
  \<open>execvp\<close>; \<open>Stdout s\<close> is a write of \<open>s\<close> to standard output; \<open>Delegate newArgs\<close>
  is the construction and execution of a new external command inside the child; and
  \<open>Waitpid\<close>, listed after the child's events, is the blocking wait of the parent, which
  a background command skips.
\<close>

datatype event =
    Throw string
  | Fork
  | ExecFailed "string list"
  | ImageReplaced "string list"
  | Stdout string
  | Delegate "string list"
  | Waitpid
  | UndefinedBehaviour

text \<open>
  The call recurses inside the child after a failed \<open>execvp\<close>; nothing in the source
  bounds the recursion, so the model is a partial function and \<open>None\<close> means that the
  call never returns. With an empty \<open>args\<close> the child passes a null pointer to
  \<open>execvp\<close> and reads \<open>args[0]\<close> out of bounds. The trace ends where the call
  returns (or throws); what a child that returned from the call does next, in its copy of
  the caller, is not part of it.
\<close>

partial_function (option) ExternalCommand_execute ::
  "os \<Rightarrow> nat \<Rightarrow> string list \<Rightarrow> bool \<Rightarrow> event list option" where
  "ExternalCommand_execute sys depth args runInBackground =
     (if \<not> os_fork sys depth then Some [Throw CHILD_CREATION_FAILED]
      else do {
        child \<leftarrow>
          (if args = [] then Some [UndefinedBehaviour]
           else if os_execvp sys (map c_str args) then Some [ImageReplaced (map c_str args)]
           else (case getenv (os_env sys) (args ! 0) of
                   Some varValue \<Rightarrow> Some [ExecFailed (map c_str args), Stdout (varValue @ endl)]
                 | None \<Rightarrow> do {
                     let command = args ! 0;
                     let command = (if char_at command 0 = CHR ''$''
                                    then substr_from command 1 else command);
                     let newArgs = [''/bin/sh'', ''-c'', command];
                     rest \<leftarrow> ExternalCommand_execute sys (depth + 1) newArgs runInBackground;
                     Some (ExecFailed (map c_str args) # Delegate newArgs # rest)
                   }));
        Some (Fork # child @ (if runInBackground then [] else [Waitpid]))
      })"

section \<open>The classifier: \<open>CommandFactory::createCommand\<close>\<close>

datatype command =
    ExitCommand
  | HistoryCommand
  | EchoCommand "string list"
  | ExternalCommand "string list" bool

text \<open>
  \<open>tokens[0]\<close> on an empty vector reads out of bounds (undefined behaviour); the model
  makes it an error value.
\<close>

datatype error = IndexOutOfBounds

definition createCommand :: "string \<Rightarrow> error + command" where
  "createCommand input =
     (let tokens = splitString input SPACE;
          stripped = (tokens \<noteq> [] \<and> last tokens = BACKGROUND_PROCESS);
          runInBackground = stripped;
          tokens = (if stripped then butlast tokens else tokens)
      in if tokens = [] then Inl IndexOutOfBounds
         else if tokens ! 0 = EXIT_COMMAND then Inr ExitCommand
         else if tokens ! 0 = ''myhistory'' then Inr HistoryCommand
         else if tokens ! 0 = ''echo'' then Inr (EchoCommand tokens)
         else Inr (ExternalCommand tokens runInBackground))"

section \<open>Reference definitions and sample systems\<close>

text \<open>
  The listing as the specification words it: each line of the log, in file order,
  prefixed by its 1-based index and the separator \<open>". "\<close>, one output line per entry.
  \<open>log_of_lines\<close> is the content of a log file that holds the given lines, each ended by
  a line feed.
\<close>

definition log_of_lines :: "string list \<Rightarrow> string" where
  "log_of_lines ls = concat (map (\<lambda>l. l @ ''\<newline>'') ls)"

definition numbered_line :: "nat \<times> string \<Rightarrow> string" where
  "numbered_line e = show_nat (fst e) @ ''. '' @ snd e @ ''\<newline>''"

definition listing_spec :: "string list \<Rightarrow> string" where
  "listing_spec ls = concat (map numbered_line (enumerate 1 ls))"

text \<open>The number of times a trace hands the command over to the shell interpreter.\<close>

fun is_Delegate :: "event \<Rightarrow> bool" where
  "is_Delegate (Delegate newArgs) = True"
| "is_Delegate e = False"

definition delegations :: "event list \<Rightarrow> nat" where
  "delegations trace = length (filter is_Delegate trace)"

text \<open>
  Three systems on which the process runner is evaluated. In \<open>os_home\<close> the variable
  \<open>HOME\<close> is set and only \<open>/bin/sh\<close> can be executed; \<open>os_shell_only\<close> is the same
  with an empty environment; in \<open>os_unresolvable\<close> nothing can be executed, not even
  \<open>/bin/sh\<close>, and no variable is set; \<open>os_process_limit\<close> is \<open>os_unresolvable\<close>
  with a limit on the processes: the fork at nesting depth 3 fails.
\<close>

definition os_home :: os where
  "os_home = \<lparr>os_env = [''HOME'' \<mapsto> ''/root''],
              os_execvp = (\<lambda>argv. take 1 argv = [''/bin/sh'']),
              os_fork = (\<lambda>depth. True)\<rparr>"

definition os_shell_only :: os where
  "os_shell_only = \<lparr>os_env = Map.empty,
                    os_execvp = (\<lambda>argv. take 1 argv = [''/bin/sh'']),
                    os_fork = (\<lambda>depth. True)\<rparr>"

definition os_unresolvable :: os where
  "os_unresolvable = \<lparr>os_env = Map.empty,
                      os_execvp = (\<lambda>argv. False),
                      os_fork = (\<lambda>depth. True)\<rparr>"

definition os_process_limit :: os where
  "os_process_limit = \<lparr>os_env = Map.empty,
                       os_execvp = (\<lambda>argv. False),
                       os_fork = (\<lambda>depth. depth < 3)\<rparr>"

section \<open>The tokenizer refines its specification\<close>

lemma pieces_ne: "pieces d s \<noteq> []"
  by (induction s) (auto split: list.splits)

lemma pieces_append_delim:
  "\<forall>x\<in>set xs. x \<notin> set d \<Longrightarrow> c \<in> set d \<Longrightarrow> pieces d (xs @ c # ys) = xs # pieces d ys"
  by (induction xs) (auto split: list.splits)

lemma pieces_no_delim:
  "\<forall>x\<in>set xs. x \<notin> set d \<Longrightarrow> pieces d xs = [xs]"
  by (induction xs) (auto split: list.splits)

lemma in_set_dropD:
  "x \<in> set (drop n xs) \<Longrightarrow> \<exists>i. n \<le> i \<and> i < length xs \<and> xs ! i = x"
proof -
  assume "x \<in> set (drop n xs)"
  then obtain j where "j < length (drop n xs)" "drop n xs ! j = x"
    by (auto simp: in_set_conv_nth)
  then have "n \<le> n + j \<and> n + j < length xs \<and> xs ! (n + j) = x"
    by auto
  then show ?thesis by blast
qed

lemma in_set_take_dropD:
  "x \<in> set (take k (drop n xs)) \<Longrightarrow> \<exists>i. n \<le> i \<and> i < n + k \<and> i < length xs \<and> xs ! i = x"
proof -
  assume "x \<in> set (take k (drop n xs))"
  then obtain j where "j < length (take k (drop n xs))" "take k (drop n xs) ! j = x"
    by (auto simp: in_set_conv_nth)
  then have "n \<le> n + j \<and> n + j < n + k \<and> n + j < length xs \<and> xs ! (n + j) = x"
    by auto
  then show ?thesis by blast
qed

lemma splitString_loop_spec:
  "start \<le> length str \<Longrightarrow>
   splitString_loop str d start tokens = tokens @ tokenize_spec (drop start str) d"
proof (induction str d start tokens rule: splitString_loop.induct)
  case (1 str d start tokens)
  show ?case
  proof (cases "find_first_of str d start")
    case None
    then have "\<forall>x\<in>set (drop start str). x \<notin> set d"
      using find_first_of_None [OF None] by (blast dest: in_set_dropD)
    then have "pieces d (drop start str) = [drop start str]"
      by (rule pieces_no_delim)
    with None "1.prems" show ?thesis
      by (simp add: splitString_loop.simps [of str d start] tokenize_spec_def substr_from_def)
  next
    case (Some e)
    then have b: "start \<le> e" "e < length str" "str ! e \<in> set d"
      using find_first_of_bounds by blast+
    have nd: "\<forall>x\<in>set (take (e - start) (drop start str)). x \<notin> set d"
    proof
      fix x assume "x \<in> set (take (e - start) (drop start str))"
      then obtain i where "start \<le> i" "i < start + (e - start)" "str ! i = x"
        by (blast dest: in_set_take_dropD)
      with b find_first_of_least [OF Some, of i] show "x \<notin> set d" by simp
    qed
    have split: "drop start str = take (e - start) (drop start str) @ str ! e # drop (e + 1) str"
    proof -
      have "drop start str = take (e - start) (drop start str) @ drop (e - start) (drop start str)"
        by (rule append_take_drop_id [symmetric])
      also have "drop (e - start) (drop start str) = drop e str"
        using b by simp
      also have "drop e str = str ! e # drop (e + 1) str"
        using b by (simp add: Cons_nth_drop_Suc)
      finally show ?thesis .
    qed
    have "pieces d (drop start str) = take (e - start) (drop start str) # pieces d (drop (e + 1) str)"
      using pieces_append_delim [OF nd b(3)] split by metis
    moreover have "take (e - start) (drop start str) = [] \<longleftrightarrow> e = start"
      using b by auto
    moreover have "splitString_loop str d (e + 1)
             (if e \<noteq> start then tokens @ [substr str start (e - start)] else tokens)
          = (if e \<noteq> start then tokens @ [substr str start (e - start)] else tokens)
            @ tokenize_spec (drop (e + 1) str) d"
      using "1.IH" [OF Some] b by simp
    ultimately show ?thesis
      using Some by (simp add: splitString_loop.simps [of str d start] tokenize_spec_def substr_def)
  qed
qed

lemma pieces_no_delimiter: "p \<in> set (pieces d s) \<Longrightarrow> set p \<inter> set d = {}"
proof (induction s arbitrary: p)
  case Nil
  then show ?case by simp
next
  case (Cons c cs)
  show ?case
  proof (cases "c \<in> set d")
    case True
    with Cons show ?thesis by auto
  next
    case False
    obtain q qs where pq: "pieces d cs = q # qs"
      using pieces_ne [of d cs] by (cases "pieces d cs") auto
    with False Cons.prems have "p = c # q \<or> p \<in> set qs" by auto
    then show ?thesis
    proof
      assume "p = c # q"
      moreover have "set q \<inter> set d = {}" using Cons.IH [of q] pq by simp
      ultimately show ?thesis using False by simp
    next
      assume "p \<in> set qs"
      then show ?thesis using Cons.IH [of p] pq by simp
    qed
  qed
qed

lemma concat_pieces: "concat (pieces d s) = filter (\<lambda>c. c \<notin> set d) s"
proof (induction s)
  case Nil
  then show ?case by simp
next
  case (Cons c cs)
  obtain q qs where pq: "pieces d cs = q # qs"
    using pieces_ne [of d cs] by (cases "pieces d cs") auto
  with Cons show ?case by auto
qed

lemma length_pieces: "length (pieces d s) = Suc (length (filter (\<lambda>c. c \<in> set d) s))"
proof (induction s)
  case Nil
  then show ?case by simp
next
  case (Cons c cs)
  obtain q qs where pq: "pieces d cs = q # qs"
    using pieces_ne [of d cs] by (cases "pieces d cs") auto
  with Cons show ?case by auto
qed

lemma concat_filter_nonempty: "concat (filter (\<lambda>t. t \<noteq> []) xs) = concat xs"
  by (induction xs) auto

lemma splitString_refines: "splitString str d = tokenize_spec str d"
  using splitString_loop_spec [of 0 str d "[]"] by (simp add: splitString_def)

lemma pieces_cut:
  "c \<in> set d \<Longrightarrow> pieces d (xs @ c # ys) = pieces d xs @ pieces d ys"
proof (induction xs)
  case Nil
  then show ?case by simp
next
  case (Cons x xs)
  obtain q qs where pq: "pieces d xs = q # qs"
    using pieces_ne [of d xs] by (cases "pieces d xs") auto
  with Cons show ?case by simp
qed

lemma splitString_cut:
  "c \<in> set d \<Longrightarrow> splitString (xs @ c # ys) d = splitString xs d @ splitString ys d"
  by (simp add: splitString_refines tokenize_spec_def pieces_cut)

lemma splitString_no_delimiter:
  "set str \<inter> set d = {} \<Longrightarrow> splitString str d = (if str = [] then [] else [str])"
proof -
  assume "set str \<inter> set d = {}"
  then have "\<forall>x\<in>set str. x \<notin> set d" by blast
  then have "pieces d str = [str]" by (rule pieces_no_delim)
  then show ?thesis by (simp add: splitString_refines tokenize_spec_def)
qed

text \<open>
  Claim C9. For every input string and every delimiter set, \<open>splitString\<close> returns, in
  order, the non-empty pieces obtained by cutting the string at every delimiter
  occurrence: it equals the specification's tokenizer, every token is non-empty and free
  of delimiters (so adjacent, leading and trailing delimiters leave no empty token), the
  tokens together are exactly the non-delimiter characters of the input, a string
  without delimiters is its own single token (none if it is empty), the tokens of a
  string cut at a delimiter are the tokens of the part before it followed by the tokens
  of the part after it, and
  \<open>tokenize("a  b") = ["a","b"]\<close>, \<open>tokenize(" a ") = ["a"]\<close>, \<open>tokenize("") = []\<close>.
\<close>

theorem splitString_tokenizes:
  "splitString str delimiters = tokenize_spec str delimiters
   \<and> (\<forall>t \<in> set (splitString str delimiters). t \<noteq> [] \<and> set t \<inter> set delimiters = {})
   \<and> concat (splitString str delimiters) = filter (\<lambda>c. c \<notin> set delimiters) str
   \<and> (set str \<inter> set delimiters = {} \<longrightarrow>
        splitString str delimiters = (if str = [] then [] else [str]))
   \<and> (c \<in> set delimiters \<longrightarrow>
        splitString (str @ c # str') delimiters
          = splitString str delimiters @ splitString str' delimiters)
   \<and> splitString ''a  b'' SPACE = [''a'', ''b'']
   \<and> splitString '' a '' SPACE = [''a'']
   \<and> splitString '''' SPACE = []"
proof (intro conjI impI)
  show "splitString str delimiters = tokenize_spec str delimiters"
    by (rule splitString_refines)
  show "\<forall>t \<in> set (splitString str delimiters). t \<noteq> [] \<and> set t \<inter> set delimiters = {}"
    by (auto simp: splitString_refines tokenize_spec_def dest: pieces_no_delimiter)
  show "concat (splitString str delimiters) = filter (\<lambda>c. c \<notin> set delimiters) str"
    by (simp add: splitString_refines tokenize_spec_def concat_filter_nonempty concat_pieces)
  show "splitString str delimiters = (if str = [] then [] else [str])"
    if "set str \<inter> set delimiters = {}"
    using that by (rule splitString_no_delimiter)
  show "splitString (str @ c # str') delimiters
          = splitString str delimiters @ splitString str' delimiters"
    if "c \<in> set delimiters"
    using that by (rule splitString_cut)
  show "splitString ''a  b'' SPACE = [''a'', ''b'']"
    by (simp add: splitString_refines tokenize_spec_def SPACE_def)
  show "splitString '' a '' SPACE = [''a'']"
    by (simp add: splitString_refines tokenize_spec_def SPACE_def)
  show "splitString '''' SPACE = []"
    by (simp add: splitString_refines tokenize_spec_def SPACE_def)
qed

theorem splitString_tokenizes_witness:
  "''b'' \<in> set (splitString ''a  b'' SPACE) \<and> ''b'' \<noteq> [] \<and> set ''b'' \<inter> set SPACE = {}
   \<and> splitString ''a  b'' SPACE = tokenize_spec ''a  b'' SPACE
   \<and> CHR '' '' \<in> set SPACE
   \<and> splitString (''ls'' @ CHR '' '' # ''-l'') SPACE = splitString ''ls'' SPACE @ splitString ''-l'' SPACE
   \<and> set ''ls'' \<inter> set SPACE = {} \<and> splitString ''ls'' SPACE = [''ls'']"
proof -
  have ex: "splitString ''a  b'' SPACE = [''a'', ''b'']"
    using splitString_tokenizes [of "''a  b''" SPACE] by blast
  then have mem: "''b'' \<in> set (splitString ''a  b'' SPACE)"
    by simp
  have sp: "CHR '' '' \<in> set SPACE" and nd: "set ''ls'' \<inter> set SPACE = {}"
    by (simp_all add: SPACE_def)
  have cut: "splitString (''ls'' @ CHR '' '' # ''-l'') SPACE
             = splitString ''ls'' SPACE @ splitString ''-l'' SPACE"
    using splitString_tokenizes [of "''ls''" SPACE "CHR '' ''" "''-l''"] sp by blast
  have "splitString ''ls'' SPACE = (if ''ls'' = [] then [] else [''ls''])"
    using splitString_tokenizes [of "''ls''" SPACE] nd by blast
  then have one: "splitString ''ls'' SPACE = [''ls'']"
    by simp
  from mem splitString_tokenizes [of "''a  b''" SPACE] have
    "''b'' \<noteq> [] \<and> set ''b'' \<inter> set SPACE = {}
     \<and> splitString ''a  b'' SPACE = tokenize_spec ''a  b'' SPACE"
    by blast
  with mem sp nd cut one show ?thesis by blast
qed

section \<open>The expander copies its input\<close>

lemma dollar_branch_unreachable:
  "find_first_of str ''$}'' start = Some e \<Longrightarrow> \<not> dollar_branch str start e"
proof
  assume found: "find_first_of str ''$}'' start = Some e" and br: "dollar_branch str start e"
  from found have b: "start \<le> e" "e < length str"
    using find_first_of_bounds by blast+
  with br have "str ! start = CHR ''$''" "start < length str"
    by (auto simp: dollar_branch_def char_at_def)
  then have "find_first_of str ''$}'' start = Some start"
    by (simp add: find_first_of_here)
  with found have "e = start" by simp
  with br show False by (simp add: dollar_branch_def)
qed

lemma brace_branch_unreachable:
  "find_first_of str ''$}'' start = Some e \<Longrightarrow> \<not> brace_branch str start e"
proof
  assume found: "find_first_of str ''$}'' start = Some e" and br: "brace_branch str start e"
  from found have b: "start \<le> e" "e < length str"
    using find_first_of_bounds by blast+
  from br have gt: "e > start + 1" and ch: "char_at str (e - 1) = CHR ''$''"
    by (auto simp: brace_branch_def)
  from b have "e - 1 < length str" by simp
  with ch have "str ! (e - 1) = CHR ''$''"
    by (simp add: char_at_def)
  moreover have "str ! (e - 1) \<notin> set ''$}''"
    using find_first_of_least [OF found, of "e - 1"] gt by simp
  ultimately show False by simp
qed

lemma expandVariables_loop_copies:
  "start \<le> length str \<Longrightarrow> expandVariables_loop environ str start result = result @ drop start str"
proof (induction environ str start result rule: expandVariables_loop.induct)
  case (1 environ str start result)
  show ?case
  proof (cases "find_first_of str ''$}'' start")
    case None
    then show ?thesis
      using "1.prems"
      by (simp add: expandVariables_loop.simps [of environ str start] substr_from_def)
  next
    case (Some e)
    then have b: "start \<le> e" "e < length str"
      using find_first_of_bounds by blast+
    have nd: "\<not> dollar_branch str start e" and nb: "\<not> brace_branch str start e"
      using Some dollar_branch_unreachable brace_branch_unreachable by blast+
    have "expandVariables_loop environ str (e + 1) (result @ substr str start (e - start + 1))
          = (result @ substr str start (e - start + 1)) @ drop (e + 1) str"
      using "1.IH"(3) [OF Some nd nb] b by simp
    moreover have "take (e - start + 1) (drop start str) @ drop (e + 1) str = drop start str"
    proof -
      have "drop (e + 1) str = drop (e - start + 1) (drop start str)"
        using b by simp
      then show ?thesis by (simp only: append_take_drop_id)
    qed
    ultimately show ?thesis
      using Some nd nb
      by (simp add: expandVariables_loop.simps [of environ str start] substr_def)
  qed
qed

lemma expandVariables_copies: "expandVariables environ str = str"
  using expandVariables_loop_copies [of 0 str environ "[]"] by (simp add: expandVariables_def)

text \<open>
  Claim C2. For every input string and every environment the variable expander returns
  its input unchanged, because neither substituting branch can be taken: whenever the
  search from \<open>start\<close> finds a position \<open>e\<close>, the condition of the \<open>$NAME\<close> branch
  and the condition of the brace branch are both false.
\<close>

theorem expandVariables_identity:
  "expandVariables environ str = str
   \<and> (\<forall>start e. find_first_of str ''$}'' start = Some e \<longrightarrow>
         \<not> dollar_branch str start e \<and> \<not> brace_branch str start e)"
  using expandVariables_copies dollar_branch_unreachable brace_branch_unreachable by blast

theorem expandVariables_identity_witness:
  "find_first_of ''${HOME}/bin'' ''$}'' 1 = Some 6
   \<and> \<not> dollar_branch ''${HOME}/bin'' 1 6 \<and> \<not> brace_branch ''${HOME}/bin'' 1 6
   \<and> expandVariables [''HOME'' \<mapsto> ''/root''] ''${HOME}/bin'' = ''${HOME}/bin''"
proof -
  have f: "find_first_of ''${HOME}/bin'' ''$}'' 1 = Some 6"
    by code_simp
  with expandVariables_identity [of "[''HOME'' \<mapsto> ''/root'']" "''${HOME}/bin''"]
  show ?thesis by blast
qed

text \<open>
  Claim C1. With \<open>NAME\<close> bound to \<open>bob\<close> the expander should turn both
  \<open>hello $NAME!\<close> and \<open>hello ${NAME}!\<close> into \<open>hello bob!\<close>, and with \<open>NAME\<close>
  unset into \<open>hello !\<close>. The code returns all four inputs as they are.
\<close>

theorem expandVariables_leaves_references:
  "expandVariables [''NAME'' \<mapsto> ''bob''] ''hello $NAME!'' = ''hello $NAME!''
   \<and> expandVariables [''NAME'' \<mapsto> ''bob''] ''hello ${NAME}!'' = ''hello ${NAME}!''
   \<and> expandVariables Map.empty ''hello $NAME!'' = ''hello $NAME!''
   \<and> expandVariables Map.empty ''hello ${NAME}!'' = ''hello ${NAME}!''"
  by (simp add: expandVariables_copies)

section \<open>The output of echo\<close>

lemma echo_loop_concat:
  "echo_loop environ args i out
   = out @ concat (map (\<lambda>t. expandVariables environ t @ '' '') (drop i args))"
proof (induction environ args i out rule: echo_loop.induct)
  case (1 environ args i out)
  show ?case
  proof (cases "i < length args")
    case True
    then have "drop i args = args ! i # drop (i + 1) args"
      by (simp add: Cons_nth_drop_Suc)
    with True "1.IH" show ?thesis
      by (simp add: echo_loop.simps [of environ args i])
  next
    case False
    then show ?thesis
      by (simp add: echo_loop.simps [of environ args i])
  qed
qed

text \<open>
  Claim C7. For every token sequence owned by the echo command, the output is, for each
  token after index 0, the expanded token followed by one space, and then one line feed;
  with no argument after the command name it is the line feed alone; and
  \<open>["echo","a","b"]\<close> prints \<open>a b\<close>, a space and the line feed.
\<close>

theorem EchoCommand_execute_output:
  "EchoCommand_execute environ args
     = concat (map (\<lambda>t. expandVariables environ t @ '' '') (drop 1 args)) @ ''\<newline>''
   \<and> EchoCommand_execute environ [name] = ''\<newline>''
   \<and> EchoCommand_execute environ [''echo'', ''a'', ''b''] = ''a b \<newline>''"
  by (simp add: EchoCommand_execute_def echo_loop_concat endl_def expandVariables_copies)

section \<open>The classifier\<close>

lemma createCommand_marker:
  "splitString input SPACE = ts @ [BACKGROUND_PROCESS] \<Longrightarrow> ts \<noteq> [] \<Longrightarrow>
   createCommand input =
     Inr (if ts ! 0 = EXIT_COMMAND then ExitCommand
          else if ts ! 0 = ''myhistory'' then HistoryCommand
          else if ts ! 0 = ''echo'' then EchoCommand ts
          else ExternalCommand ts True)"
  by (simp add: createCommand_def Let_def)

lemma createCommand_plain:
  "splitString input SPACE = ts \<Longrightarrow> ts \<noteq> [] \<Longrightarrow> last ts \<noteq> BACKGROUND_PROCESS \<Longrightarrow>
   createCommand input =
     Inr (if ts ! 0 = EXIT_COMMAND then ExitCommand
          else if ts ! 0 = ''myhistory'' then HistoryCommand
          else if ts ! 0 = ''echo'' then EchoCommand ts
          else ExternalCommand ts False)"
  by (simp add: createCommand_def Let_def)

lemma createCommand_nothing_left:
  "splitString input SPACE = [] \<or> splitString input SPACE = [BACKGROUND_PROCESS] \<Longrightarrow>
   createCommand input = Inl IndexOutOfBounds"
  by (auto simp: createCommand_def Let_def)

lemma split_sleep: "splitString ''sleep 5 &'' SPACE = [''sleep'', ''5''] @ [BACKGROUND_PROCESS]"
  by (simp add: splitString_refines tokenize_spec_def SPACE_def BACKGROUND_PROCESS_def)

lemma split_echo_hi: "splitString ''echo hi'' SPACE = [''echo'', ''hi'']"
  by (simp add: splitString_refines tokenize_spec_def SPACE_def)

lemma split_echo_a: "splitString ''echo a &'' SPACE = [''echo'', ''a''] @ [BACKGROUND_PROCESS]"
  by (simp add: splitString_refines tokenize_spec_def SPACE_def BACKGROUND_PROCESS_def)

lemma split_marker: "splitString ''&'' SPACE = [BACKGROUND_PROCESS]"
  by (simp add: splitString_refines tokenize_spec_def SPACE_def BACKGROUND_PROCESS_def)

lemma split_empty: "splitString [] SPACE = []"
  by (simp add: splitString_refines tokenize_spec_def)

lemma split_blank: "splitString ''   '' SPACE = []"
  by (simp add: splitString_refines tokenize_spec_def SPACE_def)

text \<open>
  Claim C6. For every non-empty token sequence, that is, every sequence that has a token
  0 to classify once a trailing background marker has been removed (the lone marker
  \<open>&\<close> is a line without tokens, the case of claim C5): the classifier removes a
  trailing \<open>&\<close> token and records \<open>background = true\<close>; a token 0 equal to \<open>exit\<close>, \<open>myhistory\<close> or \<open>echo\<close>
  gives the matching built-in, before anything else is considered; any other token 0
  gives the external command with the remaining tokens and the recorded flag. In
  particular \<open>sleep 5 &\<close> gives \<open>External(["sleep","5"], true)\<close> and \<open>echo hi\<close> gives
  \<open>Echo(["echo","hi"])\<close>.
\<close>

theorem createCommand_classifies:
  "(splitString input SPACE = ts @ [''&''] \<and> ts \<noteq> [] \<longrightarrow>
      createCommand input =
        Inr (if ts ! 0 = ''exit'' then ExitCommand
             else if ts ! 0 = ''myhistory'' then HistoryCommand
             else if ts ! 0 = ''echo'' then EchoCommand ts
             else ExternalCommand ts True))
   \<and> (splitString input SPACE = ts \<and> ts \<noteq> [] \<and> last ts \<noteq> ''&'' \<longrightarrow>
      createCommand input =
        Inr (if ts ! 0 = ''exit'' then ExitCommand
             else if ts ! 0 = ''myhistory'' then HistoryCommand
             else if ts ! 0 = ''echo'' then EchoCommand ts
             else ExternalCommand ts False))
   \<and> createCommand ''sleep 5 &'' = Inr (ExternalCommand [''sleep'', ''5''] True)
   \<and> createCommand ''echo hi'' = Inr (EchoCommand [''echo'', ''hi''])"
proof (intro conjI impI)
  assume "splitString input SPACE = ts @ [''&''] \<and> ts \<noteq> []"
  then show "createCommand input =
        Inr (if ts ! 0 = ''exit'' then ExitCommand
             else if ts ! 0 = ''myhistory'' then HistoryCommand
             else if ts ! 0 = ''echo'' then EchoCommand ts
             else ExternalCommand ts True)"
    using createCommand_marker [of input ts]
    by (simp add: BACKGROUND_PROCESS_def EXIT_COMMAND_def)
next
  assume "splitString input SPACE = ts \<and> ts \<noteq> [] \<and> last ts \<noteq> ''&''"
  then show "createCommand input =
        Inr (if ts ! 0 = ''exit'' then ExitCommand
             else if ts ! 0 = ''myhistory'' then HistoryCommand
             else if ts ! 0 = ''echo'' then EchoCommand ts
             else ExternalCommand ts False)"
    using createCommand_plain [of input ts]
    by (simp add: BACKGROUND_PROCESS_def EXIT_COMMAND_def)
next
  show "createCommand ''sleep 5 &'' = Inr (ExternalCommand [''sleep'', ''5''] True)"
    using createCommand_marker [OF split_sleep] by (simp add: EXIT_COMMAND_def)
next
  show "createCommand ''echo hi'' = Inr (EchoCommand [''echo'', ''hi''])"
    using createCommand_plain [OF split_echo_hi]
    by (simp add: EXIT_COMMAND_def BACKGROUND_PROCESS_def)
qed

theorem createCommand_classifies_witness:
  "splitString ''ls -l &'' SPACE = [''ls'', ''-l''] @ [''&'']
   \<and> createCommand ''ls -l &'' = Inr (ExternalCommand [''ls'', ''-l''] True)
   \<and> splitString ''exit now'' SPACE = [''exit'', ''now'']
   \<and> createCommand ''exit now'' = Inr ExitCommand"
proof -
  have a: "splitString ''ls -l &'' SPACE = [''ls'', ''-l''] @ [''&'']"
    by (simp add: splitString_refines tokenize_spec_def SPACE_def)
  have b: "splitString ''exit now'' SPACE = [''exit'', ''now'']"
    by (simp add: splitString_refines tokenize_spec_def SPACE_def)
  from a createCommand_classifies [of "''ls -l &''" "[''ls'', ''-l'']"]
  have "createCommand ''ls -l &'' = Inr (ExternalCommand [''ls'', ''-l''] True)"
    by simp
  moreover from b createCommand_classifies [of "''exit now''" "[''exit'', ''now'']"]
  have "createCommand ''exit now'' = Inr ExitCommand"
    by simp
  ultimately show ?thesis using a b by simp
qed

text \<open>
  Claim C5. A line without tokens (empty, blank, or the lone marker \<open>&\<close>) should be
  rejected with an empty-input condition, without indexing token 0. The code guards
  \<open>tokens.back()\<close> with \<open>!tokens.empty()\<close> but then reads \<open>tokens[0]\<close> unguarded:
  on these lines the read is out of bounds.
\<close>

theorem createCommand_empty_input:
  "createCommand '''' = Inl IndexOutOfBounds
   \<and> createCommand ''   '' = Inl IndexOutOfBounds
   \<and> createCommand ''&'' = Inl IndexOutOfBounds"
  using split_empty split_blank split_marker
  by (simp add: createCommand_nothing_left)

text \<open>
  Claim C10. For every line ending in the background marker whose remaining token 0 names
  a built-in, the classifier removes the marker and constructs the built-in from the
  remaining tokens; the built-in carries no background flag, so the command is the one
  constructed from the same tokens on a line without the marker. For example
  \<open>echo a &\<close> constructs \<open>Echo(["echo","a"])\<close>, which prints \<open>a\<close>, a space and a
  line feed, and no ampersand.
\<close>

theorem createCommand_builtin_drops_flag:
  "(splitString input SPACE = ts @ [''&''] \<and> ts \<noteq> []
      \<and> ts ! 0 \<in> {''exit'', ''myhistory'', ''echo''} \<longrightarrow>
      createCommand input =
        Inr (if ts ! 0 = ''exit'' then ExitCommand
             else if ts ! 0 = ''myhistory'' then HistoryCommand
             else EchoCommand ts)
      \<and> (\<forall>input'. splitString input' SPACE = ts \<and> last ts \<noteq> ''&'' \<longrightarrow>
             createCommand input' = createCommand input))
   \<and> createCommand ''echo a &'' = Inr (EchoCommand [''echo'', ''a''])
   \<and> EchoCommand_execute environ [''echo'', ''a''] = ''a \<newline>''"
proof (intro conjI impI allI)
  assume h: "splitString input SPACE = ts @ [''&''] \<and> ts \<noteq> []
      \<and> ts ! 0 \<in> {''exit'', ''myhistory'', ''echo''}"
  then show c: "createCommand input =
        Inr (if ts ! 0 = ''exit'' then ExitCommand
             else if ts ! 0 = ''myhistory'' then HistoryCommand
             else EchoCommand ts)"
    using createCommand_marker [of input ts]
    by (auto simp: BACKGROUND_PROCESS_def EXIT_COMMAND_def)
  fix input'
  assume "splitString input' SPACE = ts \<and> last ts \<noteq> ''&''"
  with h have "createCommand input' =
        Inr (if ts ! 0 = ''exit'' then ExitCommand
             else if ts ! 0 = ''myhistory'' then HistoryCommand
             else EchoCommand ts)"
    using createCommand_plain [of input' ts]
    by (auto simp: BACKGROUND_PROCESS_def EXIT_COMMAND_def)
  with c show "createCommand input' = createCommand input" by simp
next
  show "createCommand ''echo a &'' = Inr (EchoCommand [''echo'', ''a''])"
    using createCommand_marker [OF split_echo_a] by (simp add: EXIT_COMMAND_def)
next
  show "EchoCommand_execute environ [''echo'', ''a''] = ''a \<newline>''"
    by (simp add: EchoCommand_execute_def echo_loop_concat endl_def expandVariables_copies)
qed

theorem createCommand_builtin_drops_flag_witness:
  "splitString ''myhistory &'' SPACE = [''myhistory''] @ [''&'']
   \<and> splitString ''myhistory'' SPACE = [''myhistory'']
   \<and> createCommand ''myhistory &'' = Inr HistoryCommand
   \<and> createCommand ''myhistory'' = createCommand ''myhistory &''"
proof -
  have a: "splitString ''myhistory &'' SPACE = [''myhistory''] @ [''&'']"
    by (simp add: splitString_refines tokenize_spec_def SPACE_def)
  have b: "splitString ''myhistory'' SPACE = [''myhistory'']"
    by (simp add: splitString_refines tokenize_spec_def SPACE_def)
  from a createCommand_builtin_drops_flag [of "''myhistory &''" "[''myhistory'']"]
  have c: "createCommand ''myhistory &'' = Inr HistoryCommand
      \<and> (\<forall>input'. splitString input' SPACE = [''myhistory''] \<and> last [''myhistory''] \<noteq> ''&'' \<longrightarrow>
             createCommand input' = createCommand ''myhistory &'')"
    by simp
  then have "createCommand ''myhistory'' = createCommand ''myhistory &''"
    using b by simp
  with a b c show ?thesis by simp
qed

section \<open>The history listing\<close>

lemma sint_small: "n < 2 ^ 31 \<Longrightarrow> sint (of_nat n :: 32 word) = int n"
  by (simp add: signed_of_nat signed_take_bit_int_eq_self)

lemma getline_line:
  "CHR 0x0A \<notin> set l \<Longrightarrow> getline (l @ CHR 0x0A # rest) = Some (l, rest)"
proof -
  assume nl: "CHR 0x0A \<notin> set l"
  then have "takeWhile (\<lambda>c. c \<noteq> CHR 0x0A) (l @ CHR 0x0A # rest) = l"
    by (subst takeWhile_append2) auto
  moreover from nl have "dropWhile (\<lambda>c. c \<noteq> CHR 0x0A) (l @ CHR 0x0A # rest) = CHR 0x0A # rest"
    by (subst dropWhile_append2) auto
  ultimately show ?thesis by (simp add: getline_def)
qed

lemma getline_last:
  "CHR 0x0A \<notin> set l \<Longrightarrow> l \<noteq> [] \<Longrightarrow> getline l = Some (l, [])"
proof -
  assume nl: "CHR 0x0A \<notin> set l" and ne: "l \<noteq> []"
  from nl have tw: "takeWhile (\<lambda>c. c \<noteq> CHR 0x0A) l = l"
    by auto
  from nl have dw: "dropWhile (\<lambda>c. c \<noteq> CHR 0x0A) l = []"
    by auto
  show ?thesis unfolding getline_def tw dw using ne by simp
qed

lemma history_loop_lines:
  "\<forall>l \<in> set ls. CHR 0x0A \<notin> set l \<Longrightarrow>
   history_loop (of_nat k) (log_of_lines ls @ tail) out
   = history_loop (of_nat (k + length ls)) tail
       (out @ concat (map (\<lambda>e. show_int (sint (of_nat (fst e) :: 32 word)) @ ''. '' @ snd e @ endl)
                       (enumerate k ls)))"
proof (induction ls arbitrary: k out)
  case Nil
  then show ?case by (simp add: log_of_lines_def)
next
  case (Cons l ls)
  then have nl: "CHR 0x0A \<notin> set l" and rest: "\<forall>l \<in> set ls. CHR 0x0A \<notin> set l"
    by simp_all
  have "log_of_lines (l # ls) @ tail = l @ CHR 0x0A # (log_of_lines ls @ tail)"
    by (simp add: log_of_lines_def)
  then have g: "getline (log_of_lines (l # ls) @ tail) = Some (l, log_of_lines ls @ tail)"
    using getline_line [OF nl] by simp
  have "history_loop (of_nat k) (log_of_lines (l # ls) @ tail) out
        = history_loop (of_nat (Suc k)) (log_of_lines ls @ tail)
            (out @ show_int (sint (of_nat k :: 32 word)) @ ''. '' @ l @ endl)"
    by (subst history_loop.simps) (simp add: g add.commute)
  also have "\<dots> = history_loop (of_nat (Suc k + length ls)) tail
       ((out @ show_int (sint (of_nat k :: 32 word)) @ ''. '' @ l @ endl)
          @ concat (map (\<lambda>e. show_int (sint (of_nat (fst e) :: 32 word)) @ ''. '' @ snd e @ endl)
                       (enumerate (Suc k) ls)))"
    by (rule Cons.IH [OF rest])
  finally show ?case by simp
qed

lemma history_loop_end: "history_loop c [] out = out"
  by (subst history_loop.simps) (simp add: getline_def)

lemma history_loop_last:
  "CHR 0x0A \<notin> set l \<Longrightarrow> l \<noteq> [] \<Longrightarrow>
   history_loop c l out = out @ show_int (sint c) @ ''. '' @ l @ endl"
  by (subst history_loop.simps) (simp add: getline_last history_loop_end)

lemma show_int_nat: "show_int (int n) = show_nat n"
  by (simp add: show_int_def)

lemma numbered_small:
  "k + length ls \<le> 2 ^ 31 \<Longrightarrow> e \<in> set (enumerate k ls) \<Longrightarrow>
   show_int (sint (of_nat (fst e) :: 32 word)) @ ''. '' @ snd e @ endl = numbered_line e"
proof -
  assume len: "k + length ls \<le> 2 ^ 31" and mem: "e \<in> set (enumerate k ls)"
  from mem have "fst e < k + length ls"
    by (simp add: in_set_enumerate_eq)
  with len have "fst e < 2 ^ 31" by simp
  then show ?thesis
    by (simp add: numbered_line_def sint_small show_int_nat endl_def)
qed

lemma HistoryCommand_execute_lines:
  assumes "length ls < 2 ^ 31" and "\<forall>l \<in> set ls. CHR 0x0A \<notin> set l"
  shows "HistoryCommand_execute (Some (log_of_lines ls)) = listing_spec ls"
proof -
  have "HistoryCommand_execute (Some (log_of_lines ls)) = history_loop (of_nat 1) (log_of_lines ls @ []) []"
    by (simp add: HistoryCommand_execute_def)
  also have "\<dots> = concat (map (\<lambda>e. show_int (sint (of_nat (fst e) :: 32 word)) @ ''. '' @ snd e @ endl)
                       (enumerate 1 ls))"
    by (simp only: history_loop_lines [OF assms(2)] history_loop_end append_Nil)
  also have "\<dots> = concat (map numbered_line (enumerate 1 ls))"
  proof -
    have "map (\<lambda>e. show_int (sint (of_nat (fst e) :: 32 word)) @ ''. '' @ snd e @ endl) (enumerate 1 ls)
          = map numbered_line (enumerate 1 ls)"
    proof (rule map_cong [OF refl])
      fix e assume "e \<in> set (enumerate 1 ls)"
      moreover from assms(1) have "1 + length ls \<le> 2 ^ 31" by simp
      ultimately show "show_int (sint (of_nat (fst e) :: 32 word)) @ ''. '' @ snd e @ endl = numbered_line e"
        using numbered_small [of 1 ls e] by blast
    qed
    then show ?thesis by (rule arg_cong [where f = concat])
  qed
  finally show ?thesis by (simp add: listing_spec_def)
qed

lemma digit_not_minus: "d < 10 \<Longrightarrow> CHR ''-'' \<noteq> digit d"
proof -
  assume "d < 10"
  then have "d \<in> {0, 1, 2, 3, 4, 5, 6, 7, 8, 9}" by auto
  then show ?thesis by (auto simp: digit_def)
qed

lemma show_nat_no_minus: "CHR ''-'' \<notin> set (show_nat n)"
proof (induction n rule: show_nat.induct)
  case (1 n)
  show ?case
  proof (cases "n < 10")
    case True
    then show ?thesis by (simp add: show_nat.simps [of n] digit_not_minus)
  next
    case False
    moreover have "n mod 10 < 10" by simp
    ultimately show ?thesis
      using "1.IH" digit_not_minus [of "n mod 10"] by (simp add: show_nat.simps [of n])
  qed
qed

lemma listing_spec_no_minus:
  "\<forall>l \<in> set ls. CHR ''-'' \<notin> set l \<Longrightarrow> CHR ''-'' \<notin> set (listing_spec ls)"
  by (auto simp: listing_spec_def numbered_line_def show_nat_no_minus in_set_enumerate_eq)

lemma history_overflow_minus:
  assumes "length ls = 2 ^ 31" and "\<forall>l \<in> set ls. CHR 0x0A \<notin> set l"
  shows "CHR ''-'' \<in> set (HistoryCommand_execute (Some (log_of_lines ls)))"
proof -
  have "HistoryCommand_execute (Some (log_of_lines ls)) = history_loop (of_nat 1) (log_of_lines ls @ []) []"
    by (simp add: HistoryCommand_execute_def)
  also have "\<dots> = concat (map (\<lambda>e. show_int (sint (of_nat (fst e) :: 32 word)) @ ''. '' @ snd e @ endl)
                       (enumerate 1 ls))"
    by (simp only: history_loop_lines [OF assms(2)] history_loop_end append_Nil)
  finally have out: "HistoryCommand_execute (Some (log_of_lines ls))
      = concat (map (\<lambda>e. show_int (sint (of_nat (fst e) :: 32 word)) @ ''. '' @ snd e @ endl)
                       (enumerate 1 ls))" .
  have mem: "(2 ^ 31, ls ! (2 ^ 31 - 1)) \<in> set (enumerate 1 ls)"
    using assms(1) by (simp add: in_set_enumerate_eq)
  have "sint (of_nat (2 ^ 31) :: 32 word) = - (2 ^ 31)"
    by simp
  then have "CHR ''-'' \<in> set (show_int (sint (of_nat (2 ^ 31) :: 32 word)))"
    by (simp add: show_int_def)
  with mem show ?thesis
    unfolding out by (auto intro!: bexI [of _ "(2 ^ 31, ls ! (2 ^ 31 - 1))"])
qed

lemma HistoryCommand_execute_unterminated:
  assumes "length ls + 1 < 2 ^ 31" and "\<forall>l \<in> set ls. CHR 0x0A \<notin> set l"
    and "CHR 0x0A \<notin> set l'" and "l' \<noteq> []"
  shows "HistoryCommand_execute (Some (log_of_lines ls @ l')) = listing_spec (ls @ [l'])"
proof -
  have small: "Suc (length ls) < 2 ^ 31"
    using assms(1) by simp
  have "HistoryCommand_execute (Some (log_of_lines (ls @ [l']))) = listing_spec (ls @ [l'])"
    using assms by (intro HistoryCommand_execute_lines) auto
  then have full: "history_loop (of_nat 1) (log_of_lines ls @ (l' @ ''\<newline>'')) []
                   = listing_spec (ls @ [l'])"
    by (simp add: HistoryCommand_execute_def log_of_lines_def)
  have "history_loop (of_nat 1) (log_of_lines ls @ (l' @ ''\<newline>'')) []
        = history_loop (of_nat (1 + length ls)) (l' @ ''\<newline>'')
            (concat (map (\<lambda>e. show_int (sint (of_nat (fst e) :: 32 word)) @ ''. '' @ snd e @ endl)
                       (enumerate 1 ls)))"
    by (simp only: history_loop_lines [OF assms(2)] append_Nil)
  also have "\<dots> = concat (map (\<lambda>e. show_int (sint (of_nat (fst e) :: 32 word)) @ ''. '' @ snd e @ endl)
                       (enumerate 1 ls))
                   @ show_int (sint (of_nat (1 + length ls) :: 32 word)) @ ''. '' @ l' @ endl"
    using getline_line [OF assms(3), of "[]"]
    by (subst history_loop.simps) (simp add: history_loop_end)
  also have "\<dots> = history_loop (of_nat (1 + length ls)) l'
            (concat (map (\<lambda>e. show_int (sint (of_nat (fst e) :: 32 word)) @ ''. '' @ snd e @ endl)
                       (enumerate 1 ls)))"
    by (simp only: history_loop_last [OF assms(3) assms(4)])
  also have "\<dots> = history_loop (of_nat 1) (log_of_lines ls @ l') []"
    by (simp only: history_loop_lines [OF assms(2)] append_Nil)
  finally show ?thesis
    using full by (simp add: HistoryCommand_execute_def)
qed

text \<open>
  Claim C8, for logs of fewer than \<open>2^31\<close> lines. If the log opens and holds the lines
  \<open>ls\<close> (the last one with or without its line feed), the history command prints each
  of them in file order, prefixed by its 1-based index and \<open>". "\<close>, one per output
  line; if the log cannot be opened it prints nothing and raises nothing.
\<close>

theorem HistoryCommand_execute_listing:
  "(length ls < 2 ^ 31 \<and> (\<forall>l \<in> set ls. CHR 0x0A \<notin> set l) \<longrightarrow>
      HistoryCommand_execute (Some (log_of_lines ls)) = listing_spec ls)
   \<and> (length ls + 1 < 2 ^ 31 \<and> (\<forall>l \<in> set ls. CHR 0x0A \<notin> set l)
        \<and> CHR 0x0A \<notin> set l' \<and> l' \<noteq> [] \<longrightarrow>
      HistoryCommand_execute (Some (log_of_lines ls @ l')) = listing_spec (ls @ [l']))
   \<and> HistoryCommand_execute None = []"
  using HistoryCommand_execute_lines [of ls] HistoryCommand_execute_unterminated [of ls l']
  by (simp add: HistoryCommand_execute_def)

theorem HistoryCommand_execute_listing_witness:
  "length [''ls -l'', ''echo hi'', ''myhistory''] < 2 ^ 31
   \<and> CHR 0x0A \<notin> set ''ls -l'' \<and> CHR 0x0A \<notin> set ''echo hi''
   \<and> HistoryCommand_execute (Some ''ls -l\<newline>echo hi\<newline>myhistory\<newline>'')
       = ''1. ls -l\<newline>2. echo hi\<newline>3. myhistory\<newline>''
   \<and> length [''ls -l'', ''echo hi''] + 1 < 2 ^ 31
   \<and> CHR 0x0A \<notin> set ''myhistory'' \<and> ''myhistory'' \<noteq> []
   \<and> HistoryCommand_execute (Some ''ls -l\<newline>echo hi\<newline>myhistory'')
       = ''1. ls -l\<newline>2. echo hi\<newline>3. myhistory\<newline>''"
proof -
  have a: "log_of_lines [''ls -l'', ''echo hi'', ''myhistory''] = ''ls -l\<newline>echo hi\<newline>myhistory\<newline>''"
    by (simp add: log_of_lines_def)
  have b: "listing_spec [''ls -l'', ''echo hi'', ''myhistory'']
           = ''1. ls -l\<newline>2. echo hi\<newline>3. myhistory\<newline>''"
    by code_simp
  have c: "log_of_lines [''ls -l'', ''echo hi''] @ ''myhistory'' = ''ls -l\<newline>echo hi\<newline>myhistory''"
    by (simp add: log_of_lines_def)
  have h: "\<forall>l \<in> set [''ls -l'', ''echo hi'', ''myhistory'']. CHR 0x0A \<notin> set l"
    by simp
  have "HistoryCommand_execute (Some (log_of_lines [''ls -l'', ''echo hi'', ''myhistory'']))
        = listing_spec [''ls -l'', ''echo hi'', ''myhistory'']"
    using HistoryCommand_execute_listing [of "[''ls -l'', ''echo hi'', ''myhistory'']"] h by simp
  moreover have "HistoryCommand_execute (Some (log_of_lines [''ls -l'', ''echo hi''] @ ''myhistory''))
        = listing_spec ([''ls -l'', ''echo hi''] @ [''myhistory''])"
    using HistoryCommand_execute_listing [of "[''ls -l'', ''echo hi'']" "''myhistory''"] by simp
  ultimately show ?thesis
    using a b c h by simp
qed

text \<open>
  Why claim C8 needs its bound: the counter is an \<open>int\<close>. On a log of \<open>2^31\<close> (empty)
  lines the last index printed is negative, so the output is not the 1-based listing.
\<close>

theorem HistoryCommand_execute_overflow:
  "HistoryCommand_execute (Some (log_of_lines (replicate 2147483648 [])))
   \<noteq> listing_spec (replicate 2147483648 [])"
proof -
  have "CHR ''-'' \<in> set (HistoryCommand_execute (Some (log_of_lines (replicate 2147483648 []))))"
    by (rule history_overflow_minus) simp_all
  moreover have "CHR ''-'' \<notin> set (listing_spec (replicate 2147483648 []))"
    by (rule listing_spec_no_minus) simp
  ultimately show ?thesis by metis
qed

section \<open>The process runner\<close>

lemma os_home_simps:
  "os_fork os_home depth" "os_execvp os_home argv = (take 1 argv = [''/bin/sh''])"
  "os_env os_home = [''HOME'' \<mapsto> ''/root'']"
  by (simp_all add: os_home_def)

text \<open>
  Claim C3. With \<open>HOME\<close> set, the external command \<open>["$HOME"]\<close>, whose direct
  execution fails, should print the value of \<open>HOME\<close>. The code looks the token up with
  its dollar sign (\<open>getenv("$HOME")\<close>), finds no such variable, strips the dollar sign
  only afterwards and hands \<open>HOME\<close> to \<open>/bin/sh -c\<close> as a command: the trace has no
  write to standard output.
\<close>

theorem ExternalCommand_execute_dollar_HOME:
  "getenv (os_env os_home) ''HOME'' = Some ''/root''
   \<and> getenv (os_env os_home) ''$HOME'' = None
   \<and> ExternalCommand_execute os_home 0 [''$HOME''] False =
     Some [Fork, ExecFailed [''$HOME''], Delegate [''/bin/sh'', ''-c'', ''HOME''],
           Fork, ImageReplaced [''/bin/sh'', ''-c'', ''HOME''], Waitpid, Waitpid]"
proof -
  have inner: "ExternalCommand_execute os_home (Suc 0) [''/bin/sh'', ''-c'', ''HOME''] False
        = Some [Fork, ImageReplaced [''/bin/sh'', ''-c'', ''HOME''], Waitpid]"
    by (subst ExternalCommand_execute.simps) (simp add: os_home_simps c_str_def)
  have outer: "ExternalCommand_execute os_home 0 [''$HOME''] False =
     Some [Fork, ExecFailed [''$HOME''], Delegate [''/bin/sh'', ''-c'', ''HOME''],
           Fork, ImageReplaced [''/bin/sh'', ''-c'', ''HOME''], Waitpid, Waitpid]"
    by (subst ExternalCommand_execute.simps)
       (simp add: os_home_simps inner c_str_def getenv_def char_at_def substr_from_def Let_def)
  then show ?thesis
    by (simp add: os_home_simps getenv_def c_str_def)
qed

lemma ExternalCommand_execute_never_returns:
  assumes ret: "ExternalCommand_execute sys depth args runInBackground = Some t"
  shows "(\<forall>n. os_fork sys n) \<and> (\<forall>argv. \<not> os_execvp sys argv) \<and> (\<forall>name. os_env sys name = None)
         \<and> args \<noteq> [] \<longrightarrow> False"
proof (rule ExternalCommand_execute.raw_induct
         [where P = "\<lambda>sys depth args runInBackground t.
            (\<forall>n. os_fork sys n) \<and> (\<forall>argv. \<not> os_execvp sys argv)
            \<and> (\<forall>name. os_env sys name = None) \<and> args \<noteq> [] \<longrightarrow> False", OF _ ret])
  fix execute :: "os \<Rightarrow> nat \<Rightarrow> string list \<Rightarrow> bool \<Rightarrow> event list option"
  fix sys depth args runInBackground t
  assume IH: "\<And>sys depth args runInBackground t.
     execute sys depth args runInBackground = Some t \<Longrightarrow>
     (\<forall>n. os_fork sys n) \<and> (\<forall>argv. \<not> os_execvp sys argv)
       \<and> (\<forall>name. os_env sys name = None) \<and> args \<noteq> [] \<longrightarrow> False"
  assume step: "(if \<not> os_fork sys depth then Some [Throw CHILD_CREATION_FAILED]
      else do {
        child \<leftarrow>
          (if args = [] then Some [UndefinedBehaviour]
           else if os_execvp sys (map c_str args) then Some [ImageReplaced (map c_str args)]
           else (case getenv (os_env sys) (args ! 0) of
                   Some varValue \<Rightarrow> Some [ExecFailed (map c_str args), Stdout (varValue @ endl)]
                 | None \<Rightarrow> do {
                     let command = args ! 0;
                     let command = (if char_at command 0 = CHR ''$''
                                    then substr_from command 1 else command);
                     let newArgs = [''/bin/sh'', ''-c'', command];
                     rest \<leftarrow> execute sys (depth + 1) newArgs runInBackground;
                     Some (ExecFailed (map c_str args) # Delegate newArgs # rest)
                   }));
        Some (Fork # child @ (if runInBackground then [] else [Waitpid]))
      }) = Some t"
  show "(\<forall>n. os_fork sys n) \<and> (\<forall>argv. \<not> os_execvp sys argv)
         \<and> (\<forall>name. os_env sys name = None) \<and> args \<noteq> [] \<longrightarrow> False"
  proof
    assume h: "(\<forall>n. os_fork sys n) \<and> (\<forall>argv. \<not> os_execvp sys argv)
               \<and> (\<forall>name. os_env sys name = None) \<and> args \<noteq> []"
    with step obtain command rest where
      "execute sys (depth + 1) [''/bin/sh'', ''-c'', command] runInBackground = Some rest"
      by (auto simp: getenv_def Let_def split: bind_splits)
    with IH h show False by blast
  qed
qed

lemma os_process_limit_simps:
  "os_fork os_process_limit depth = (depth < 3)" "os_execvp os_process_limit argv = False"
  "os_env os_process_limit = Map.empty"
  by (simp_all add: os_process_limit_def)

lemma ExternalCommand_execute_process_limit:
  "ExternalCommand_execute os_process_limit 0 [''foo''] False =
     Some [Fork, ExecFailed [''foo''], Delegate [''/bin/sh'', ''-c'', ''foo''],
           Fork, ExecFailed [''/bin/sh'', ''-c'', ''foo''], Delegate [''/bin/sh'', ''-c'', ''/bin/sh''],
           Fork, ExecFailed [''/bin/sh'', ''-c'', ''/bin/sh''], Delegate [''/bin/sh'', ''-c'', ''/bin/sh''],
           Throw CHILD_CREATION_FAILED, Waitpid, Waitpid, Waitpid]"
proof -
  have l3: "ExternalCommand_execute os_process_limit (Suc (Suc (Suc 0))) [''/bin/sh'', ''-c'', ''/bin/sh''] False
            = Some [Throw CHILD_CREATION_FAILED]"
    by (subst ExternalCommand_execute.simps) (simp add: os_process_limit_simps)
  have l2: "ExternalCommand_execute os_process_limit (Suc (Suc 0)) [''/bin/sh'', ''-c'', ''/bin/sh''] False
            = Some [Fork, ExecFailed [''/bin/sh'', ''-c'', ''/bin/sh''],
                    Delegate [''/bin/sh'', ''-c'', ''/bin/sh''],
                    Throw CHILD_CREATION_FAILED, Waitpid]"
    by (subst ExternalCommand_execute.simps)
       (simp add: os_process_limit_simps l3 c_str_def getenv_def char_at_def Let_def)
  have l1: "ExternalCommand_execute os_process_limit (Suc 0) [''/bin/sh'', ''-c'', ''foo''] False
            = Some [Fork, ExecFailed [''/bin/sh'', ''-c'', ''foo''],
                    Delegate [''/bin/sh'', ''-c'', ''/bin/sh''],
                    Fork, ExecFailed [''/bin/sh'', ''-c'', ''/bin/sh''],
                    Delegate [''/bin/sh'', ''-c'', ''/bin/sh''],
                    Throw CHILD_CREATION_FAILED, Waitpid, Waitpid]"
    by (subst ExternalCommand_execute.simps)
       (simp add: os_process_limit_simps l2 c_str_def getenv_def char_at_def Let_def)
  show ?thesis
    by (subst ExternalCommand_execute.simps)
       (simp add: os_process_limit_simps l1 c_str_def getenv_def char_at_def Let_def)
qed

text \<open>
  Why claim C4 needs its condition: where nothing can be executed, not even \<open>/bin/sh\<close>,
  and forks keep succeeding, the call for \<open>["foo"]\<close> never returns: every level delegates to a further level, and no
  command-not-found condition is raised. With a limit on the processes the recursion
  goes on until a fork fails, and what is raised then, in the innermost child, is the
  child-creation failure.
\<close>

theorem ExternalCommand_execute_unresolvable:
  "ExternalCommand_execute os_unresolvable 0 [''foo''] False = None
   \<and> ExternalCommand_execute os_process_limit 0 [''foo''] False =
     Some [Fork, ExecFailed [''foo''], Delegate [''/bin/sh'', ''-c'', ''foo''],
           Fork, ExecFailed [''/bin/sh'', ''-c'', ''foo''], Delegate [''/bin/sh'', ''-c'', ''/bin/sh''],
           Fork, ExecFailed [''/bin/sh'', ''-c'', ''/bin/sh''], Delegate [''/bin/sh'', ''-c'', ''/bin/sh''],
           Throw CHILD_CREATION_FAILED, Waitpid, Waitpid, Waitpid]"
proof
  show "ExternalCommand_execute os_unresolvable 0 [''foo''] False = None"
  proof (cases "ExternalCommand_execute os_unresolvable 0 [''foo''] False")
    case None
    then show ?thesis .
  next
    case (Some t)
    then have False
      using ExternalCommand_execute_never_returns [OF Some]
      by (simp add: os_unresolvable_def)
    then show ?thesis ..
  qed
next
  show "ExternalCommand_execute os_process_limit 0 [''foo''] False =
     Some [Fork, ExecFailed [''foo''], Delegate [''/bin/sh'', ''-c'', ''foo''],
           Fork, ExecFailed [''/bin/sh'', ''-c'', ''foo''], Delegate [''/bin/sh'', ''-c'', ''/bin/sh''],
           Fork, ExecFailed [''/bin/sh'', ''-c'', ''/bin/sh''], Delegate [''/bin/sh'', ''-c'', ''/bin/sh''],
           Throw CHILD_CREATION_FAILED, Waitpid, Waitpid, Waitpid]"
    by (rule ExternalCommand_execute_process_limit)
qed

text \<open>
  Claim C4, for the systems in which the delegated shell invocation can be executed. For
  every non-empty token sequence and background flag, if \<open>execvp\<close> succeeds on
  \<open>["/bin/sh", "-c", command]\<close> (\<open>command\<close> being token 0 without one leading dollar
  sign), the call returns and its trace holds at most one delegation.
\<close>

theorem ExternalCommand_execute_delegates_once:
  "args \<noteq> [] \<and>
   os_execvp sys (map c_str [''/bin/sh'', ''-c'',
       if char_at (args ! 0) 0 = CHR ''$'' then substr_from (args ! 0) 1 else args ! 0]) \<longrightarrow>
   (\<exists>trace. ExternalCommand_execute sys depth args runInBackground = Some trace
            \<and> delegations trace \<le> 1)"
proof
  let ?command = "if char_at (args ! 0) 0 = CHR ''$'' then substr_from (args ! 0) 1 else args ! 0"
  let ?newArgs = "[''/bin/sh'', ''-c'', ?command]"
  assume h: "args \<noteq> [] \<and> os_execvp sys (map c_str ?newArgs)"
  have inner: "\<exists>rest. ExternalCommand_execute sys (depth + 1) ?newArgs runInBackground = Some rest
                 \<and> delegations rest = 0"
    using h by (subst ExternalCommand_execute.simps) (simp add: delegations_def)
  then obtain rest where rest:
    "ExternalCommand_execute sys (depth + 1) ?newArgs runInBackground = Some rest"
    "delegations rest = 0"
    by blast
  show "\<exists>trace. ExternalCommand_execute sys depth args runInBackground = Some trace
            \<and> delegations trace \<le> 1"
    using h rest
    by (subst ExternalCommand_execute.simps)
       (auto simp: delegations_def Let_def split: option.splits)
qed

theorem ExternalCommand_execute_delegates_once_witness:
  "[''nosuchprogram'', ''-x''] \<noteq> []
   \<and> os_execvp os_shell_only (map c_str [''/bin/sh'', ''-c'', ''nosuchprogram''])
   \<and> (\<exists>trace. ExternalCommand_execute os_shell_only 0 [''nosuchprogram'', ''-x''] True = Some trace
              \<and> delegations trace \<le> 1)"
proof -
  have h: "os_execvp os_shell_only (map c_str [''/bin/sh'', ''-c'', ''nosuchprogram''])"
    by (simp add: os_shell_only_def c_str_def)
  with ExternalCommand_execute_delegates_once
         [of "[''nosuchprogram'', ''-x'']" os_shell_only 0 True]
  show ?thesis by (simp add: char_at_def)
qed

end
